theory Spec2Isabelle
  imports Main "HOL-Library.Word" "HOL-Library.Char_ord" "HOL-Library.List_Lexorder"
begin

section \<open>LogJoin: a shallow embedding of src/logjoin/LogJoin.cc\<close>

text \<open>
  The sessionizer keeps per-user event records in an ordered key-value store and a
  per-user flush deadline in memory. Strings are byte strings (\<open>char list\<close>); the
  order on keys is the bytewise lexicographic order of the store's cursor. Times are
  unsigned 64-bit microsecond counts, so \<open>+\<close> and \<open>*\<close> wrap as in the source.
\<close>

subsection \<open>Basic types\<close>

type_synonym u64 = "64 word"
type_synonym u32 = "32 word"
type_synonym ParamList = "(string \<times> string) list"
type_synonym MDB = "(string \<times> string) list"

text \<open>The exceptions that can leave a function of the class.\<close>

datatype ExceptionType =
    kRuntimeError
  | kParseError
  | kIndexError
  | kBufferOverflowError
  | std_out_of_range
  | std_invalid_argument
  | UndefinedBehaviour

definition kMicrosPerSecond :: u64 where
  "kMicrosPerSecond = 1000000"

text \<open>
  Modelled from the spec: \<open>kSessionIdleTimeoutSeconds\<close> is declared in LogJoin.h, which
  is not among the sources; the idle timeout is 1800 seconds (30 minutes).
\<close>

definition kSessionIdleTimeoutSeconds :: u64 where
  "kSessionIdleTimeoutSeconds = 1800"

subsection \<open>String helpers\<close>

text \<open>
  \<open>std::string::find\<close> of a one-character needle from a start position: the index
  of the first occurrence at or after \<open>pos\<close>, \<open>None\<close> for \<open>npos\<close>.
\<close>

fun find_first :: "string \<Rightarrow> char \<Rightarrow> nat option" where
  "find_first [] c = None"
| "find_first (x # xs) c = (if x = c then Some 0 else map_option Suc (find_first xs c))"

definition find_from :: "string \<Rightarrow> char \<Rightarrow> nat \<Rightarrow> nat option" where
  "find_from s c pos = map_option (\<lambda>i. pos + i) (find_first (drop pos s) c)"

definition substr :: "string \<Rightarrow> nat \<Rightarrow> nat \<Rightarrow> string" where
  "substr s pos n = take n (drop pos s)"

text \<open>
  Modelled from the spec: \<open>StringUtil::beginsWith\<close> and \<open>StringUtil::endsWith\<close> are
  library helpers outside the sources; "begins with" and "ends with" on byte strings.
\<close>

definition beginsWith :: "string \<Rightarrow> string \<Rightarrow> bool" where
  "beginsWith str pre = (length pre \<le> length str \<and> take (length pre) str = pre)"

definition endsWith :: "string \<Rightarrow> string \<Rightarrow> bool" where
  "endsWith str suf =
     (length suf \<le> length str \<and> drop (length str - length suf) str = suf)"

text \<open>
  \<open>std::stoul\<close> in base 10 on a 64-bit \<open>unsigned long\<close>: leading white space is
  skipped, one sign is accepted, the longest run of digits is read; no digit raises
  \<open>std::invalid_argument\<close>, a value beyond 64 bits raises \<open>std::out_of_range\<close>, and a
  minus sign negates modulo \<open>2^64\<close>.
\<close>

definition isspace :: "char \<Rightarrow> bool" where
  "isspace c = (c \<in> set [CHR '' '', CHR 0x09, CHR 0x0A, CHR 0x0B, CHR 0x0C, CHR 0x0D])"

definition isdigit :: "char \<Rightarrow> bool" where
  "isdigit c = (CHR ''0'' \<le> c \<and> c \<le> CHR ''9'')"

definition digits_value :: "string \<Rightarrow> nat" where
  "digits_value ds = foldl (\<lambda>acc d. 10 * acc + (of_char d - 48)) 0 ds"

definition stoul :: "string \<Rightarrow> ExceptionType + u64" where
  "stoul s =
     (let s1 = dropWhile isspace s;
          neg = (case s1 of [] \<Rightarrow> False | c # _ \<Rightarrow> c = CHR ''-'');
          s2 = (case s1 of [] \<Rightarrow> []
                | c # r \<Rightarrow> if c = CHR ''-'' \<or> c = CHR ''+'' then r else s1);
          ds = takeWhile isdigit s2
      in if ds = [] then Inl std_invalid_argument
         else if 2 ^ 64 \<le> digits_value ds then Inl std_out_of_range
         else Inr (if neg then - of_nat (digits_value ds) else of_nat (digits_value ds)))"

text \<open>
  Modelled from the spec: \<open>URI::getParam\<close> is a library helper outside the sources; it
  extracts the value of the first parameter with the given name.
\<close>

definition getParam :: "ParamList \<Rightarrow> string \<Rightarrow> string option" where
  "getParam params k = map_of params k"

subsection \<open>The pixel parameter dictionary\<close>

type_synonym dict = "(string \<rightharpoonup> u32) \<times> (u32 \<rightharpoonup> string)"

definition addPixelParamID :: "string \<Rightarrow> u32 \<Rightarrow> dict \<Rightarrow> dict" where
  "addPixelParamID param ident d = ((fst d)(param \<mapsto> ident), (snd d)(ident \<mapsto> param))"

text \<open>The registrations of the constructor, in its order.\<close>

definition registrations :: "(string \<times> u32) list" where
  "registrations =
     [(''dw_ab'', 1), (''l'', 2), (''u_x'', 3), (''u_y'', 4), (''is'', 5), (''pg'', 6),
      (''q_cat1'', 7), (''q_cat2'', 8), (''q_cat3'', 9), (''slrid'', 10), (''i'', 11),
      (''s'', 12), (''ml'', 13), (''adm'', 14), (''lgn'', 15), (''slr'', 16),
      (''lng'', 17), (''dwnid'', 18), (''fnm'', 19), (''r_url'', 20), (''r_nm'', 21),
      (''r_cpn'', 22), (''x'', 23), (''qx'', 24), (''cs'', 25), (''qt'', 26),
      (''qstr~de'', 100), (''qstr~pl'', 101), (''qstr~en'', 102), (''qstr~fr'', 103),
      (''qstr~it'', 104), (''qstr~nl'', 105), (''qstr~es'', 106)]"

definition register_all :: "(string \<times> u32) list \<Rightarrow> dict" where
  "register_all regs = fold (\<lambda>(p, i). addPixelParamID p i) regs (Map.empty, Map.empty)"

definition pixel_param_ids :: "string \<rightharpoonup> u32" where
  "pixel_param_ids = fst (register_all registrations)"

definition pixel_param_names :: "u32 \<rightharpoonup> string" where
  "pixel_param_names = snd (register_all registrations)"

definition getPixelParamID :: "string \<Rightarrow> ExceptionType + u32" where
  "getPixelParamID param =
     (case pixel_param_ids param of None \<Rightarrow> Inl kIndexError | Some i \<Rightarrow> Inr i)"

definition getPixelParamName :: "u32 \<Rightarrow> ExceptionType + string" where
  "getPixelParamName ident =
     (case pixel_param_names ident of None \<Rightarrow> Inl kIndexError | Some p \<Rightarrow> Inr p)"

subsection \<open>The binary message writer and reader\<close>

text \<open>
  Modelled from the spec: \<open>util::BinaryMessageWriter\<close> and \<open>util::BinaryMessageReader\<close>
  are outside the sources. The spec's "varint" is the base-128 encoding, low group
  first, the high bit of a byte saying that another byte follows; a read beyond the end
  of the buffer raises.
\<close>

function appendVarUInt :: "u64 \<Rightarrow> string" where
  "appendVarUInt v =
     (if v div 128 = 0 then [char_of (unat (v mod 128))]
      else char_of (unat (v mod 128) + 128) # appendVarUInt (v div 128))"
  by pat_completeness auto
termination
proof (relation "measure unat")
  show "wf (measure unat)" by simp
next
  fix v :: u64
  assume "v div 128 \<noteq> 0"
  then have "v \<noteq> 0" by auto
  then have "0 < unat v" by (simp add: unat_gt_0)
  then have "unat v div 128 < unat v" by simp
  then show "(v div 128, v) \<in> measure unat" by (simp add: unat_div)
qed

declare appendVarUInt.simps [simp del]

fun readVarUInt :: "string \<Rightarrow> ExceptionType + (u64 \<times> string)" where
  "readVarUInt [] = Inl kBufferOverflowError"
| "readVarUInt (c # cs) =
     (if (of_char c :: nat) < 128 then Inr (of_nat (of_char c), cs)
      else (case readVarUInt cs of
              Inl e \<Rightarrow> Inl e
            | Inr (v, rest) \<Rightarrow> Inr (of_nat (of_char c mod 128) + 128 * v, rest)))"

definition reader_read :: "nat \<Rightarrow> string \<Rightarrow> ExceptionType + (string \<times> string)" where
  "reader_read n buf =
     (if length buf < n then Inl kBufferOverflowError else Inr (take n buf, drop n buf))"

lemma readVarUInt_shorter:
  "readVarUInt buf = Inr (v, rest) \<Longrightarrow> length rest < length buf"
proof (induction buf arbitrary: v rest)
  case Nil
  then show ?case by simp
next
  case (Cons c cs)
  show ?case
  proof (cases "(of_char c :: nat) < 128")
    case True
    with Cons.prems show ?thesis by auto
  next
    case False
    with Cons.prems obtain v' where "readVarUInt cs = Inr (v', rest)"
      by (auto split: sum.splits)
    from Cons.IH [OF this] show ?thesis by simp
  qed
qed

lemma reader_read_shorter:
  "reader_read n buf = Inr (s, rest) \<Longrightarrow> length rest \<le> length buf"
  by (auto simp: reader_read_def split: if_splits)

text \<open>
  The header of an event record as \<open>flushSession\<close> reads it: the time in seconds,
  scaled to microseconds, then the length-prefixed event id.
\<close>

definition read_header :: "string \<Rightarrow> ExceptionType + (u64 \<times> string \<times> string)" where
  "read_header buf =
     (case readVarUInt buf of
        Inl e \<Rightarrow> Inl e
      | Inr (secs, r1) \<Rightarrow>
          (case readVarUInt r1 of
             Inl e \<Rightarrow> Inl e
           | Inr (evid_len, r2) \<Rightarrow>
               (case reader_read (unat evid_len) r2 of
                  Inl e \<Rightarrow> Inl e
                | Inr (evid, r3) \<Rightarrow> Inr (secs * kMicrosPerSecond, evid, r3))))"

text \<open>
  The loop \<open>while (reader.remaining() > 0)\<close> of \<open>flushSession\<close>: parameter triples
  until the end of the buffer. The parameter id is narrowed to 32 bits by the call of
  \<open>getPixelParamName\<close>.
\<close>

function read_logline :: "string \<Rightarrow> ExceptionType + ParamList" where
  "read_logline buf =
     (if length buf = 0 then Inr []
      else (case readVarUInt buf of
              Inl e \<Rightarrow> Inl e
            | Inr (ident, r1) \<Rightarrow>
                (case getPixelParamName (ucast ident) of
                   Inl e \<Rightarrow> Inl e
                 | Inr key \<Rightarrow>
                     (case readVarUInt r1 of
                        Inl e \<Rightarrow> Inl e
                      | Inr (len, r2) \<Rightarrow>
                          (case reader_read (unat len) r2 of
                             Inl e \<Rightarrow> Inl e
                           | Inr (val, r3) \<Rightarrow>
                               (case read_logline r3 of
                                  Inl e \<Rightarrow> Inl e
                                | Inr logline \<Rightarrow> Inr ((key, val) # logline)))))))"
  by pat_completeness auto
termination
proof (relation "measure length")
  show "wf (measure length)" by simp
next
  fix buf :: string and x r1 r2 r3 :: string and ident len :: u64 and val key :: string
    and y :: "u64 \<times> string" and z :: "u64 \<times> string" and w :: "string \<times> string"
  assume a: "readVarUInt buf = Inr y" "(ident, r1) = y"
    and b: "readVarUInt r1 = Inr z" "(len, r2) = z"
    and c: "reader_read (unat len) r2 = Inr w" "(val, r3) = w"
  from a have "length r1 < length buf" by (auto dest: readVarUInt_shorter)
  moreover from b have "length r2 < length r1" by (auto dest: readVarUInt_shorter)
  moreover from c have "length r3 \<le> length r2" by (auto dest: reader_read_shorter)
  ultimately show "(r3, buf) \<in> measure length" by simp
qed

declare read_logline.simps [simp del]

text \<open>The loop \<open>for (const auto& p : logline)\<close> of \<open>appendToSession\<close>.\<close>

fun append_logline :: "ParamList \<Rightarrow> ExceptionType + string" where
  "append_logline [] = Inr []"
| "append_logline (p # ps) =
     (case getPixelParamID (fst p) of
        Inl e \<Rightarrow> Inl e
      | Inr ident \<Rightarrow>
          (case append_logline ps of
             Inl e \<Rightarrow> Inl e
           | Inr buf \<Rightarrow>
               Inr (appendVarUInt (ucast ident) @ appendVarUInt (of_nat (length (snd p)))
                    @ snd p @ buf)))"

subsection \<open>The ordered store\<close>

text \<open>
  Modelled from the spec: the embedded key-value engine (\<open>mdb::MDBTransaction\<close> and its
  cursor) is outside the sources. The contents of the transaction are the records in
  key order; \<open>insert\<close> and \<open>update\<close> both insert or overwrite. A cursor is a position
  in that list; deleting the current record leaves the cursor on its successor.
\<close>

fun mdb_put :: "string \<Rightarrow> string \<Rightarrow> MDB \<Rightarrow> MDB" where
  "mdb_put k v [] = [(k, v)]"
| "mdb_put k v ((k', v') # rest) =
     (if k < k' then (k, v) # (k', v') # rest
      else if k = k' then (k, v) # rest
      else (k', v') # mdb_put k v rest)"

subsection \<open>Sessions, envelopes and the state of the class\<close>

type_synonym event = "u64 \<times> string \<times> string \<times> ParamList"

record TrackedSession =
  session_uid :: string
  session_customer_key :: string
  session_events :: "event list"

text \<open>
  Modelled from the spec: \<open>TrackedSession\<close> is outside the sources. Its
  \<open>insertLogline\<close> appends the event \<open>(time, evtype, eid, params)\<close> to the session, and
  its first-seen time is the earliest event time, absent for a session with no event.
\<close>

definition session_insertLogline ::
  "u64 \<Rightarrow> string \<Rightarrow> string \<Rightarrow> ParamList \<Rightarrow> TrackedSession \<Rightarrow> TrackedSession" where
  "session_insertLogline time evtype evid logline session =
     session\<lparr>session_events := session_events session @ [(time, evtype, evid, logline)]\<rparr>"

definition firstSeenTime :: "TrackedSession \<Rightarrow> u64 option" where
  "firstSeenTime session =
     (case session_events session of
        [] \<Rightarrow> None
      | e # es \<Rightarrow> Some (fold (\<lambda>x m. min (fst x) m) es (fst e)))"

record SessionEnvelope =
  envelope_customer :: string
  envelope_session_id :: string
  envelope_time :: u64
  envelope_session_data :: string

text \<open>
  What the class is constructed with or calls out to: the dry-run flag, the shard
  predicate, the join target (which may throw), the query-string parser (which may
  throw), the random generator's output as a function of the number of draws so far,
  and the serializer of envelopes.
\<close>

record LogJoinEnv =
  dry_run :: bool
  shard_testUID :: "string \<Rightarrow> bool"
  target_joinSession :: "TrackedSession \<Rightarrow> ExceptionType + string"
  parseQueryString :: "string \<Rightarrow> ExceptionType + ParamList"
  rnd_hex64 :: "nat \<Rightarrow> string"
  rnd_hex128 :: "nat \<Rightarrow> string"
  msg_encode :: "SessionEnvelope \<Rightarrow> string"

text \<open>
  The mutable state: the records of the transaction handed to every call, the
  deadlines, the counters, the number of random draws, and the messages passed to
  \<open>stx::logError\<close>. The member \<open>sessions_flush_times_\<close> is declared in LogJoin.h,
  outside the sources; the code uses it as a map with one entry per key (\<open>find\<close>,
  \<open>emplace\<close>, \<open>erase\<close>, \<open>size\<close>). It is kept here as the list of its entries in
  the order of iteration, a new entry going to the end; the properties below do not
  depend on that order.
\<close>

record LogJoin =
  txn :: MDB
  sessions_flush_times :: "(string \<times> u64) list"
  stat_loglines_total :: nat
  stat_loglines_invalid :: nat
  stat_joined_sessions :: nat
  rnd :: nat
  errors_logged :: "string list"

type_synonym result = "(ExceptionType \<times> LogJoin) + LogJoin"

text \<open>
  \<open>emplace\<close> of the standard associative containers: the element is inserted only if
  the container holds no element with that key; otherwise the container is unchanged.
\<close>

definition emplace :: "string \<Rightarrow> u64 \<Rightarrow> (string \<times> u64) list \<Rightarrow> (string \<times> u64) list" where
  "emplace k v m = (case map_of m k of None \<Rightarrow> m @ [(k, v)] | Some old \<Rightarrow> m)"

subsection \<open>Ingest\<close>

text \<open>The record written through the \<open>BinaryMessageWriter\<close> in \<open>appendToSession\<close>.\<close>

definition event_record :: "u64 \<Rightarrow> string \<Rightarrow> ParamList \<Rightarrow> ExceptionType + string" where
  "event_record time evid logline =
     (case append_logline logline of
        Inl e \<Rightarrow> Inl e
      | Inr params_buf \<Rightarrow>
          Inr (appendVarUInt (time div kMicrosPerSecond)
               @ appendVarUInt (of_nat (length evid)) @ evid @ params_buf))"

definition appendToSession ::
  "LogJoinEnv \<Rightarrow> string \<Rightarrow> u64 \<Rightarrow> string \<Rightarrow> string \<Rightarrow> string \<Rightarrow> ParamList \<Rightarrow> LogJoin
     \<Rightarrow> result" where
  "appendToSession env customer_key time uid evid evtype logline this =
     (let flush_at = time + kSessionIdleTimeoutSeconds * kMicrosPerSecond;
          this1 =
            (case map_of (sessions_flush_times this) uid of
               None \<Rightarrow>
                 this\<lparr>sessions_flush_times := emplace uid flush_at (sessions_flush_times this)\<rparr>
             | Some old_ftime \<Rightarrow>
                 if old_ftime < flush_at
                 then this\<lparr>sessions_flush_times :=
                             emplace uid flush_at (sessions_flush_times this)\<rparr>
                 else this)
      in case event_record time evid logline of
           Inl e \<Rightarrow> Inl (e, this1)
         | Inr buf \<Rightarrow>
             Inr (this1\<lparr>rnd := rnd this1 + 1,
                        txn := mdb_put (uid @ ''~cust'') customer_key
                                 (mdb_put (uid @ ''~'' @ evtype @ ''~''
                                             @ rnd_hex64 env (rnd this1))
                                    buf (txn this1))\<rparr>))"

text \<open>The body of the \<open>try\<close> block of the four-argument \<open>insertLogline\<close>.\<close>

definition insertLogline_try ::
  "LogJoinEnv \<Rightarrow> string \<Rightarrow> u64 \<Rightarrow> ParamList \<Rightarrow> LogJoin \<Rightarrow> result" where
  "insertLogline_try env customer_key time params this =
     (case getParam params ''c'' of
        None \<Rightarrow> Inl (kParseError, this)
      | Some c \<Rightarrow>
          (case find_from c CHR ''~'' 0 of
             None \<Rightarrow> Inl (kParseError, this)
           | Some c_s \<Rightarrow>
               (let uid = substr c 0 c_s;
                    eid = substr c (c_s + 1) (length c - c_s - 1)
                in if length uid = 0 \<or> length eid = 0 then Inl (kParseError, this)
                   else if \<not> shard_testUID env uid then Inr this
                   else (case getParam params ''e'' of
                           None \<Rightarrow> Inl (kParseError, this)
                         | Some evtype \<Rightarrow>
                             if length evtype \<noteq> 1 then Inl (kParseError, this)
                             else if evtype \<notin> set [''q'', ''v'', ''c'', ''u'']
                             then Inl (kParseError, this)
                             else appendToSession env customer_key time uid eid evtype
                                    (filter (\<lambda>p. \<not> (fst p = ''c'' \<or> fst p = ''e''
                                                      \<or> fst p = ''v'')) params)
                                    this))))"

text \<open>
  \<open>insertLogline(customer_key, time, log_line, txn)\<close>: the parse and the increment of
  \<open>loglines_total\<close> precede the \<open>try\<close>; the handler counts the line as invalid and
  rethrows.
\<close>

definition insertLogline :: "LogJoinEnv \<Rightarrow> string \<Rightarrow> u64 \<Rightarrow> string \<Rightarrow> LogJoin \<Rightarrow> result" where
  "insertLogline env customer_key time log_line this =
     (case parseQueryString env log_line of
        Inl e \<Rightarrow> Inl (e, this)
      | Inr params \<Rightarrow>
          (case insertLogline_try env customer_key time params
                  (this\<lparr>stat_loglines_total := stat_loglines_total this + 1\<rparr>) of
             Inl (e, this') \<Rightarrow>
               Inl (e, this'\<lparr>stat_loglines_invalid := stat_loglines_invalid this' + 1\<rparr>)
           | Inr this' \<Rightarrow> Inr this'))"

text \<open>\<open>insertLogline(log_line, txn)\<close>: the pipe-delimited wrapper.\<close>

definition insertLogline_raw :: "LogJoinEnv \<Rightarrow> string \<Rightarrow> LogJoin \<Rightarrow> result" where
  "insertLogline_raw env log_line this =
     (case find_from log_line CHR ''|'' 0 of
        None \<Rightarrow> Inl (kRuntimeError, this)
      | Some c_end \<Rightarrow>
          (case find_from log_line CHR ''|'' (c_end + 1) of
             None \<Rightarrow> Inl (kRuntimeError, this)
           | Some t_end \<Rightarrow>
               (let customer_key = substr log_line 0 c_end;
                    body = drop (t_end + 1) log_line;
                    timestr = substr log_line (c_end + 1) (t_end - c_end - 1)
                in case stoul timestr of
                     Inl e \<Rightarrow> Inl (e, this)
                   | Inr secs \<Rightarrow>
                       insertLogline env customer_key (secs * kMicrosPerSecond) body this)))"

subsection \<open>Flush\<close>

text \<open>
  The scan loop of \<open>flushSession\<close>, from the record under the cursor on. It returns
  the records left at and after the cursor, the session and the state; a raise leaves
  the loop with the record that raised still in place.
\<close>

fun flushSession_scan ::
  "string \<Rightarrow> MDB \<Rightarrow> TrackedSession \<Rightarrow> LogJoin
     \<Rightarrow> (ExceptionType \<times> MDB \<times> LogJoin) + (MDB \<times> TrackedSession \<times> LogJoin)" where
  "flushSession_scan uid [] session this = Inr ([], session, this)"
| "flushSession_scan uid ((key_str, value) # rest) session this =
     (if \<not> beginsWith key_str uid then Inr ((key_str, value) # rest, session, this)
      else if endsWith key_str ''~cust''
      then flushSession_scan uid rest (session\<lparr>session_customer_key := value\<rparr>) this
      else if length key_str < length uid + 1
      then Inl (std_out_of_range, (key_str, value) # rest, this)
      else (case read_header value of
              Inl e \<Rightarrow> Inl (e, (key_str, value) # rest, this)
            | Inr (time, evid, reader) \<Rightarrow>
                (case read_logline reader of
                   Inl e \<Rightarrow>
                     flushSession_scan uid rest session
                       (this\<lparr>errors_logged := errors_logged this @ [''invalid logline''],
                             stat_loglines_invalid := stat_loglines_invalid this + 1\<rparr>)
                 | Inr logline \<Rightarrow>
                     flushSession_scan uid rest
                       (session_insertLogline time
                          (substr (drop (length uid + 1) key_str) 0 1) evid logline session)
                       this)))"

definition onSession :: "LogJoinEnv \<Rightarrow> TrackedSession \<Rightarrow> LogJoin \<Rightarrow> result" where
  "onSession env session this =
     (case target_joinSession env session of
        Inl e \<Rightarrow> Inl (e, this)
      | Inr session_data \<Rightarrow>
          if dry_run env then Inr this
          else (case firstSeenTime session of
                  None \<Rightarrow> Inl (kRuntimeError, this)
                | Some first_seen \<Rightarrow>
                    Inr (this\<lparr>rnd := rnd this + 1,
                              txn := mdb_put (''__sessionq-'' @ rnd_hex128 env (rnd this))
                                       (msg_encode env
                                          \<lparr>envelope_customer = session_customer_key session,
                                           envelope_session_id = session_uid session,
                                           envelope_time = first_seen,
                                           envelope_session_data = session_data\<rparr>)
                                       (txn this)\<rparr>)))"

definition flushSession :: "LogJoinEnv \<Rightarrow> string \<Rightarrow> u64 \<Rightarrow> LogJoin \<Rightarrow> result" where
  "flushSession env uid stream_time this =
     (let before = takeWhile (\<lambda>kv. fst kv < uid) (txn this);
          cursor = dropWhile (\<lambda>kv. fst kv < uid) (txn this)
      in case flushSession_scan uid cursor
                \<lparr>session_uid = uid, session_customer_key = [], session_events = []\<rparr> this of
           Inl (e, cursor', this') \<Rightarrow> Inl (e, this'\<lparr>txn := before @ cursor'\<rparr>)
         | Inr (cursor', session, this') \<Rightarrow>
             if length (session_customer_key session) = 0
             then Inr (this'\<lparr>txn := before @ cursor',
                             errors_logged := errors_logged this'
                                                @ [''missing customer key for: '' @ uid]\<rparr>)
             else (case onSession env session (this'\<lparr>txn := before @ cursor'\<rparr>) of
                     Inl (e, this2) \<Rightarrow>
                       Inr (this2\<lparr>errors_logged := errors_logged this2
                                                      @ [''LogJoint::onSession crashed''],
                                   stat_joined_sessions := stat_joined_sessions this2 + 1\<rparr>)
                   | Inr this2 \<Rightarrow>
                       Inr (this2\<lparr>stat_joined_sessions := stat_joined_sessions this2 + 1\<rparr>)))"

text \<open>
  The loop of \<open>flush\<close> over the deadlines: \<open>kept\<close> are the entries already passed and
  not erased, the list argument the entries still to visit.
\<close>

fun flush_iter ::
  "LogJoinEnv \<Rightarrow> u64 \<Rightarrow> (string \<times> u64) list \<Rightarrow> (string \<times> u64) list \<Rightarrow> LogJoin \<Rightarrow> result" where
  "flush_iter env stream_time kept [] this = Inr (this\<lparr>sessions_flush_times := kept\<rparr>)"
| "flush_iter env stream_time kept ((uid, ftime) # rest) this =
     (if ftime < stream_time
      then (case flushSession env uid stream_time this of
              Inl (e, this') \<Rightarrow>
                Inl (e, this'\<lparr>sessions_flush_times := kept @ (uid, ftime) # rest\<rparr>)
            | Inr this' \<Rightarrow> flush_iter env stream_time kept rest this')
      else flush_iter env stream_time (kept @ [(uid, ftime)]) rest this)"

definition flush :: "LogJoinEnv \<Rightarrow> u64 \<Rightarrow> LogJoin \<Rightarrow> result" where
  "flush env stream_time this = flush_iter env stream_time [] (sessions_flush_times this) this"

subsection \<open>Bootstrap\<close>

text \<open>
  The loop of \<open>importTimeoutList\<close> over all records in key order. A key without
  \<open>~\<close> makes \<open>sid.find\<close> return \<open>npos\<close>, and the \<open>erase\<close> that follows is undefined.
\<close>

fun importTimeoutList_loop :: "MDB \<Rightarrow> LogJoin \<Rightarrow> result" where
  "importTimeoutList_loop [] this = Inr this"
| "importTimeoutList_loop ((key, value) # rest) this =
     (if beginsWith key ''__'' then importTimeoutList_loop rest this
      else if endsWith key ''~cust'' then importTimeoutList_loop rest this
      else (case find_from key CHR ''~'' 0 of
              None \<Rightarrow> Inl (UndefinedBehaviour, this)
            | Some p \<Rightarrow>
                (case readVarUInt value of
                   Inl e \<Rightarrow> Inl (e, this)
                 | Inr (time, reader) \<Rightarrow>
                     (let sid = take p key;
                          ftime = (time + kSessionIdleTimeoutSeconds) * kMicrosPerSecond
                      in importTimeoutList_loop rest
                           (case map_of (sessions_flush_times this) sid of
                              None \<Rightarrow>
                                this\<lparr>sessions_flush_times :=
                                       emplace sid ftime (sessions_flush_times this)\<rparr>
                            | Some old_ftime \<Rightarrow>
                                if old_ftime < ftime
                                then this\<lparr>sessions_flush_times :=
                                            emplace sid ftime (sessions_flush_times this)\<rparr>
                                else this)))))"

definition importTimeoutList :: "LogJoin \<Rightarrow> result" where
  "importTimeoutList this = importTimeoutList_loop (txn this) this"

subsection \<open>Observing a result, and a concrete configuration\<close>

definition raised :: "result \<Rightarrow> ExceptionType option" where
  "raised r = (case r of Inl x \<Rightarrow> Some (fst x) | Inr this \<Rightarrow> None)"

definition state_of :: "result \<Rightarrow> LogJoin" where
  "state_of r = (case r of Inl x \<Rightarrow> snd x | Inr this \<Rightarrow> this)"

text \<open>
  The two reads of \<open>flushSession\<close> in sequence: what the decoding of one event record
  yields when nothing raises.
\<close>

definition decode_event :: "string \<Rightarrow> ExceptionType + (u64 \<times> string \<times> ParamList)" where
  "decode_event value =
     (case read_header value of
        Inl e \<Rightarrow> Inl e
      | Inr (time, evid, reader) \<Rightarrow>
          (case read_logline reader of
             Inl e \<Rightarrow> Inl e
           | Inr logline \<Rightarrow> Inr (time, evid, logline)))"

text \<open>The state of a freshly constructed instance over an empty transaction.\<close>

definition LogJoin_new :: LogJoin where
  "LogJoin_new =
     \<lparr>txn = [], sessions_flush_times = [], stat_loglines_total = 0,
      stat_loglines_invalid = 0, stat_joined_sessions = 0, rnd = 0, errors_logged = []\<rparr>"

text \<open>
  A configuration for the concrete scenarios: the shard accepts every user but
  \<open>u3\<close>, the target returns the event ids of the session, the parser knows three
  bodies, and the random generator counts upwards.
\<close>

definition example_env :: LogJoinEnv where
  "example_env =
     \<lparr>dry_run = False,
      shard_testUID = (\<lambda>uid. uid \<noteq> ''u3''),
      target_joinSession = (\<lambda>session.
         Inr (concat (map (\<lambda>ev. fst (snd (snd ev)) @ '';'') (session_events session)))),
      parseQueryString = (\<lambda>body.
         if body = ''c=u1~e1&e=q'' then Inr [(''c'', ''u1~e1''), (''e'', ''q'')]
         else if body = ''c=u1~e2&e=q'' then Inr [(''c'', ''u1~e2''), (''e'', ''q'')]
         else if body = ''c=u3~e1&e=q'' then Inr [(''c'', ''u3~e1''), (''e'', ''q'')]
         else Inr []),
      rnd_hex64 = (\<lambda>n. ''000000000000000'' @ [''0123456789abcdef'' ! (n mod 16)]),
      rnd_hex128 = (\<lambda>n. ''0000000000000000000000000000000''
                          @ [''0123456789abcdef'' ! (n mod 16)]),
      msg_encode = (\<lambda>envelope. envelope_customer envelope @ ''/''
                                 @ envelope_session_id envelope @ ''/''
                                 @ envelope_session_data envelope)\<rparr>"

text \<open>
  The state after one query event for \<open>u1\<close> at 1000 s and one for \<open>u2\<close> at 1500 s.
\<close>

definition example_two_users :: LogJoin where
  "example_two_users =
     \<lparr>txn = [(''u1~cust'', ''CUST1''),
             (''u1~q~0000000000000000'', [CHR 0xE8, CHR 0x07, CHR 0x02, CHR ''e'', CHR ''1'']),
             (''u2~cust'', ''CUST2''),
             (''u2~q~0000000000000001'', [CHR 0xDC, CHR 0x0B, CHR 0x02, CHR ''e'', CHR ''2''])],
      sessions_flush_times = [(''u1'', 2800000000), (''u2'', 3300000000)],
      stat_loglines_total = 2, stat_loglines_invalid = 0, stat_joined_sessions = 0,
      rnd = 2, errors_logged = []\<rparr>"

text \<open>
  A store holding one query event for \<open>u10\<close> at 1500 s and one for \<open>u1\<close> at 1000 s.
\<close>

definition example_prefix_users :: LogJoin where
  "example_prefix_users =
     \<lparr>txn = [(''u10~cust'', ''CUST9''),
             (''u10~q~0000000000000001'', [CHR 0xDC, CHR 0x0B, CHR 0x02, CHR ''e'', CHR ''9'']),
             (''u1~cust'', ''CUST1''),
             (''u1~q~0000000000000000'', [CHR 0xE8, CHR 0x07, CHR 0x02, CHR ''e'', CHR ''1''])],
      sessions_flush_times = [(''u1'', 2800000000), (''u10'', 3300000000)],
      stat_loglines_total = 2, stat_loglines_invalid = 0, stat_joined_sessions = 0,
      rnd = 2, errors_logged = []\<rparr>"

text \<open>The same configuration with a join target that throws.\<close>

definition failing_target_env :: LogJoinEnv where
  "failing_target_env =
     example_env\<lparr>target_joinSession := (\<lambda>session. Inl kRuntimeError)\<rparr>"

text \<open>
  A store for \<open>u1\<close> whose first event record is cut off inside the timestamp, followed
  by a sound event record.
\<close>

definition example_truncated :: LogJoin where
  "example_truncated =
     \<lparr>txn = [(''u1~cust'', ''CUST1''),
             (''u1~q~0000000000000000'', [CHR 0xE8]),
             (''u1~q~0000000000000001'', [CHR 0xC4, CHR 0x13, CHR 0x02, CHR ''e'', CHR ''2''])],
      sessions_flush_times = [(''u1'', 2800000000)],
      stat_loglines_total = 2, stat_loglines_invalid = 0, stat_joined_sessions = 0,
      rnd = 2, errors_logged = []\<rparr>"

text \<open>
  A fresh instance over a store holding two events for \<open>u1\<close>, at 1000 s and at
  2500 s, and the customer-key record.
\<close>

definition example_two_events :: LogJoin where
  "example_two_events =
     LogJoin_new
       \<lparr>txn := [(''u1~cust'', ''CUST1''),
                (''u1~q~0000000000000000'', [CHR 0xE8, CHR 0x07, CHR 0x02, CHR ''e'', CHR ''1'']),
                (''u1~q~0000000000000001'', [CHR 0xC4, CHR 0x13, CHR 0x02, CHR ''e'', CHR ''2''])]\<rparr>"

text \<open>The same configuration with a random generator that counts downwards.\<close>

definition descending_rnd_env :: LogJoinEnv where
  "descending_rnd_env =
     example_env\<lparr>rnd_hex64 := (\<lambda>n. ''000000000000000'' @ [''fedcba9876543210'' ! (n mod 16)])\<rparr>"

lemmas model_defs =
  insertLogline_raw_def insertLogline_def insertLogline_try_def appendToSession_def
  event_record_def appendVarUInt.simps read_logline.simps
  find_from_def substr_def stoul_def isspace_def isdigit_def digits_value_def getParam_def
  emplace_def kMicrosPerSecond_def kSessionIdleTimeoutSeconds_def state_of_def raised_def
  LogJoin_new_def example_env_def char_of_def bit_0

lemmas flush_defs =
  flush_def flushSession_def onSession_def read_header_def reader_read_def read_logline.simps
  beginsWith_def endsWith_def substr_def firstSeenTime_def session_insertLogline_def
  getPixelParamName_def example_env_def state_of_def raised_def Let_def

section \<open>Properties\<close>

subsection \<open>Deadlines on the append path\<close>

lemma emplace_map_of:
  "map_of (emplace k v m) k = Some (case map_of m k of None \<Rightarrow> v | Some old \<Rightarrow> old)"
  by (cases "map_of m k") (simp_all add: emplace_def map_add_Some_iff)

text \<open>
  What the append path does store: the deadline of the first event of the user, for as
  long as the entry exists.
\<close>

lemma appendToSession_deadline:
  "map_of (sessions_flush_times
             (state_of (appendToSession env customer_key time uid evid evtype logline this))) uid
     = Some (case map_of (sessions_flush_times this) uid of
               None \<Rightarrow> time + kSessionIdleTimeoutSeconds * kMicrosPerSecond
             | Some old_ftime \<Rightarrow> old_ftime)"
proof (cases "map_of (sessions_flush_times this) uid")
  case None
  then show ?thesis
    using emplace_map_of [of uid "time + kSessionIdleTimeoutSeconds * kMicrosPerSecond"
        "sessions_flush_times this"]
    by (simp add: appendToSession_def state_of_def Let_def split: sum.splits)
next
  case (Some old_ftime)
  then show ?thesis
    using emplace_map_of [of uid "time + kSessionIdleTimeoutSeconds * kMicrosPerSecond"
        "sessions_flush_times this"]
    by (simp add: appendToSession_def state_of_def Let_def split: sum.splits)
qed

text \<open>
  C1. The append path is meant to store \<open>max (old deadline) (event time + idle timeout)\<close>
  for the user. The source guards the update with \<open>old_ftime->second < flush_at\<close> but
  performs it with \<open>emplace\<close>, which leaves an existing entry alone: after events for
  \<open>u1\<close> at 1000 s and 2500 s the stored deadline is still \<open>(1000 + 1800) * 10^6\<close>
  and not \<open>(2500 + 1800) * 10^6\<close>.
\<close>

theorem appendToSession_keeps_old_deadline:
  "state_of (insertLogline_raw example_env ''CUST1|2500|c=u1~e2&e=q''
       (state_of (insertLogline_raw example_env ''CUST1|1000|c=u1~e1&e=q'' LogJoin_new)))
     = \<lparr>txn = [(''u1~cust'', ''CUST1''),
               (''u1~q~0000000000000000'', [CHR 0xE8, CHR 0x07, CHR 0x02, CHR ''e'', CHR ''1'']),
               (''u1~q~0000000000000001'', [CHR 0xC4, CHR 0x13, CHR 0x02, CHR ''e'', CHR ''2''])],
        sessions_flush_times = [(''u1'', 2800000000)],
        stat_loglines_total = 2, stat_loglines_invalid = 0, stat_joined_sessions = 0,
        rnd = 2, errors_logged = []\<rparr>
   \<and> max (2800000000 :: u64) (2500000000 + kSessionIdleTimeoutSeconds * kMicrosPerSecond)
       = 4300000000"
  by (simp add: model_defs)

subsection \<open>The pipe-delimited wrapper\<close>

lemma find_first_None_iff: "find_first s c = None \<longleftrightarrow> c \<notin> set s"
  by (induction s) auto

lemma find_first_Some_less: "find_first s c = Some i \<Longrightarrow> i < length s"
  by (induction s arbitrary: i) (auto split: if_splits)

lemma find_first_second_None:
  "find_first s c = Some i \<Longrightarrow>
     find_first (drop (Suc i) s) c = None \<longleftrightarrow> length (filter (\<lambda>x. x = c) s) < 2"
proof (induction s arbitrary: i)
  case Nil
  then show ?case by simp
next
  case (Cons x xs)
  show ?case
  proof (cases "x = c")
    case True
    with Cons.prems have "i = 0" by simp
    with True show ?thesis
      by (auto simp: find_first_None_iff filter_empty_conv)
  next
    case False
    with Cons.prems obtain j where j: "find_first xs c = Some j" "i = Suc j"
      by auto
    from Cons.IH [OF j(1)] j(2) False show ?thesis by simp
  qed
qed

lemma few_separators_cases:
  assumes "length (filter (\<lambda>x. x = c) s) < 2"
  shows "find_from s c 0 = None
         \<or> (\<exists>i. find_from s c 0 = Some i \<and> find_from s c (i + 1) = None)"
proof (cases "find_first s c")
  case None
  then show ?thesis by (simp add: find_from_def)
next
  case (Some i)
  with assms have "find_first (drop (Suc i) s) c = None"
    by (simp add: find_first_second_None)
  with Some show ?thesis by (simp add: find_from_def)
qed

text \<open>
  C3 as stated fails: a line with no separator is rejected with \<open>kRuntimeError\<close>, not
  with a parse error, and \<open>loglines_invalid\<close> is not incremented.
\<close>

theorem insertLogline_raw_malformed_counterexample:
  "length (filter (\<lambda>x. x = CHR ''|'') ''CUST1 1000 c=u1~e1&e=q'') < 2
   \<and> \<not> (raised (insertLogline_raw example_env ''CUST1 1000 c=u1~e1&e=q'' LogJoin_new)
            = Some kParseError
          \<and> stat_loglines_invalid
              (state_of (insertLogline_raw example_env ''CUST1 1000 c=u1~e1&e=q'' LogJoin_new))
            = stat_loglines_invalid LogJoin_new + 1)"
  by (simp add: model_defs)

text \<open>
  C3, amended. For every raw line with fewer than two \<open>|\<close> separators, the raw-line
  insert raises \<open>kRuntimeError\<close> and leaves the whole state as it was: no event is
  stored, the deadlines are unchanged, and neither \<open>loglines_total\<close> nor
  \<open>loglines_invalid\<close> is incremented.
\<close>

theorem insertLogline_raw_malformed:
  assumes "length (filter (\<lambda>x. x = CHR ''|'') log_line) < 2"
  shows "insertLogline_raw env log_line this = Inl (kRuntimeError, this)"
  using few_separators_cases [OF assms]
  by (auto simp: insertLogline_raw_def)

theorem insertLogline_raw_malformed_witness:
  "length (filter (\<lambda>x. x = CHR ''|'') ''CUST1|1000'') < 2
   \<and> insertLogline_raw example_env ''CUST1|1000'' LogJoin_new = Inl (kRuntimeError, LogJoin_new)"
  using insertLogline_raw_malformed [of "''CUST1|1000''" example_env LogJoin_new]
  by simp

subsection \<open>Shard misses\<close>

lemma find_first_append_sep:
  "c \<notin> set u \<Longrightarrow> find_first (u @ c # rest) c = Some (length u)"
  by (induction u) auto

text \<open>
  C9. A line for a user \<open>u\<close> is one whose \<open>c\<close> parameter is \<open>u~eid\<close> with \<open>u\<close> and
  \<open>eid\<close> non-empty. If the shard predicate rejects \<open>u\<close>, the insert returns normally;
  \<open>loglines_total\<close> is one more than before and nothing else of the state changes: neither
  the store, nor the deadlines, nor \<open>loglines_invalid\<close>.
\<close>

theorem insertLogline_shard_miss:
  assumes "parseQueryString env log_line = Inr params"
    and "getParam params ''c'' = Some (u @ ''~'' @ eid)"
    and "CHR ''~'' \<notin> set u" and "u \<noteq> []" and "eid \<noteq> []"
    and "\<not> shard_testUID env u"
  shows "insertLogline env customer_key time log_line this
           = Inr (this\<lparr>stat_loglines_total := stat_loglines_total this + 1\<rparr>)"
proof -
  have "find_from (u @ ''~'' @ eid) CHR ''~'' 0 = Some (length u)"
    using assms(3) by (simp add: find_from_def find_first_append_sep)
  then have "insertLogline_try env customer_key time params
               (this\<lparr>stat_loglines_total := stat_loglines_total this + 1\<rparr>)
             = Inr (this\<lparr>stat_loglines_total := stat_loglines_total this + 1\<rparr>)"
    using assms(2,4,5,6) by (simp add: insertLogline_try_def substr_def)
  with assms(1) show ?thesis by (simp add: insertLogline_def)
qed

theorem insertLogline_shard_miss_witness:
  "parseQueryString example_env ''c=u3~e1&e=q'' = Inr [(''c'', ''u3~e1''), (''e'', ''q'')]
   \<and> getParam [(''c'', ''u3~e1''), (''e'', ''q'')] ''c'' = Some (''u3'' @ ''~'' @ ''e1'')
   \<and> CHR ''~'' \<notin> set ''u3'' \<and> \<not> shard_testUID example_env ''u3''
   \<and> insertLogline example_env ''CUST1'' 1000000000 ''c=u3~e1&e=q'' LogJoin_new
       = Inr (LogJoin_new\<lparr>stat_loglines_total := 1\<rparr>)"
  using insertLogline_shard_miss [of example_env "''c=u3~e1&e=q''"
      "[(''c'', ''u3~e1''), (''e'', ''q'')]" "''u3''" "''e1''" "''CUST1''" 1000000000 LogJoin_new]
  by (simp add: example_env_def getParam_def LogJoin_new_def)

subsection \<open>The event record round trip\<close>

lemma appendVarUInt_nonempty: "appendVarUInt v \<noteq> []"
  by (subst appendVarUInt.simps) simp

lemma unat_mod_128: "unat ((v :: u64) mod 128) < 128"
  by (simp add: unat_mod)

lemma word_split_128: "(v :: u64) mod 128 + 128 * (v div 128) = v"
  using word_mod_div_equality [of v 128] by (simp add: mult.commute add.commute)

lemma readVarUInt_appendVarUInt:
  "readVarUInt (appendVarUInt v @ rest) = Inr (v, rest)"
proof (induction v rule: appendVarUInt.induct)
  case (1 v)
  have small: "unat (v mod 128) < 128" by (rule unat_mod_128)
  show ?case
  proof (cases "v div 128 = 0")
    case True
    then have "v mod 128 = v"
      using word_split_128 [of v] by simp
    with True small show ?thesis
      by (subst appendVarUInt.simps) simp
  next
    case False
    from small have "(unat (v mod 128) + 128) mod 256 = unat (v mod 128) + 128"
      by simp
    moreover from small have "(unat (v mod 128) + 128) mod 128 = unat (v mod 128)"
      by simp
    ultimately show ?thesis
      using False "1.IH" [OF False] word_split_128 [of v]
      by (subst appendVarUInt.simps) simp
  qed
qed

lemma reader_read_append:
  "reader_read (length s) (s @ rest) = Inr (s, rest)"
  by (simp add: reader_read_def)

lemma dict_inverse_add:
  assumes "\<forall>q j. fst d q = Some j \<longleftrightarrow> snd d j = Some q"
    and "p \<notin> dom (fst d)" and "i \<notin> dom (snd d)"
  shows "\<forall>q j. fst (addPixelParamID p i d) q = Some j
                 \<longleftrightarrow> snd (addPixelParamID p i d) j = Some q"
  using assms unfolding addPixelParamID_def
  by (auto simp: dom_def)

lemma dict_inverse_fold:
  assumes "\<forall>q j. fst d q = Some j \<longleftrightarrow> snd d j = Some q"
    and "distinct (map fst regs)" and "distinct (map snd regs)"
    and "dom (fst d) \<inter> fst ` set regs = {}" and "dom (snd d) \<inter> snd ` set regs = {}"
  shows "\<forall>q j. fst (fold (\<lambda>(p, i). addPixelParamID p i) regs d) q = Some j
                 \<longleftrightarrow> snd (fold (\<lambda>(p, i). addPixelParamID p i) regs d) j = Some q"
  using assms
proof (induction regs arbitrary: d)
  case Nil
  then show ?case by simp
next
  case (Cons r regs)
  obtain p i where r: "r = (p, i)" by (cases r)
  have inv: "\<forall>q j. fst (addPixelParamID p i d) q = Some j
                     \<longleftrightarrow> snd (addPixelParamID p i d) j = Some q"
    using Cons.prems r by (intro dict_inverse_add) auto
  have d1: "dom (fst (addPixelParamID p i d)) \<inter> fst ` set regs = {}"
    using Cons.prems r by (auto simp: addPixelParamID_def)
  have d2: "dom (snd (addPixelParamID p i d)) \<inter> snd ` set regs = {}"
    using Cons.prems r by (auto simp: addPixelParamID_def)
  from Cons.IH [OF inv _ _ d1 d2] Cons.prems r show ?case by simp
qed

lemma registrations_distinct:
  "distinct (map fst registrations)" "distinct (map snd registrations)"
  by (simp_all add: registrations_def)

lemma pixel_param_inverse:
  "pixel_param_ids p = Some i \<Longrightarrow> pixel_param_names i = Some p"
proof -
  have "\<forall>q j. fst (register_all registrations) q = Some j
               \<longleftrightarrow> snd (register_all registrations) j = Some q"
    unfolding register_all_def
    by (rule dict_inverse_fold) (simp_all add: registrations_distinct)
  then show "pixel_param_ids p = Some i \<Longrightarrow> pixel_param_names i = Some p"
    by (simp add: pixel_param_ids_def pixel_param_names_def)
qed

lemma ucast_32_64_32: "(ucast (ucast (i :: u32) :: u64) :: u32) = i"
  by (simp add: ucast_up_ucast_id is_up)

lemma read_logline_append_logline:
  assumes "\<forall>p \<in> set logline. fst p \<in> dom pixel_param_ids \<and> length (snd p) < 2 ^ 64"
  shows "\<exists>buf. append_logline logline = Inr buf \<and> read_logline buf = Inr logline"
  using assms
proof (induction logline)
  case Nil
  show ?case by (simp add: read_logline.simps)
next
  case (Cons p ps)
  from Cons.prems obtain i where i: "pixel_param_ids (fst p) = Some i"
    by auto
  from Cons.prems have len: "unat (of_nat (length (snd p)) :: u64) = length (snd p)"
    by (simp add: unat_of_nat)
  from Cons obtain buf' where buf': "append_logline ps = Inr buf'" "read_logline buf' = Inr ps"
    by auto
  let ?buf = "appendVarUInt (ucast i) @ appendVarUInt (of_nat (length (snd p))) @ snd p @ buf'"
  have enc: "append_logline (p # ps) = Inr ?buf"
    using i buf'(1) by (simp add: getPixelParamID_def)
  have name: "getPixelParamName (ucast (ucast i :: u64)) = Inr (fst p)"
    using pixel_param_inverse [OF i] by (simp add: getPixelParamName_def ucast_32_64_32)
  have "read_logline ?buf = Inr ((fst p, snd p) # ps)"
    by (subst read_logline.simps)
       (simp add: appendVarUInt_nonempty readVarUInt_appendVarUInt name len
          reader_read_append buf'(2))
  with enc show ?case by simp
qed

text \<open>
  C6. For every event time, event id and parameter list whose names are all registered
  (lengths being those of the machine, below \<open>2^64\<close>), the record written by
  \<open>appendToSession\<close> decodes, by the reads of \<open>flushSession\<close>, to the same event id and
  the same parameters in the same order, and to the time in whole seconds: the seconds
  \<open>time div 10^6\<close> that were written, scaled back to microseconds without wrap-around.
\<close>

theorem event_record_roundtrip:
  assumes "\<forall>p \<in> set logline. fst p \<in> dom pixel_param_ids \<and> length (snd p) < 2 ^ 64"
    and "length evid < 2 ^ 64"
  shows "\<exists>buf. event_record time evid logline = Inr buf
           \<and> decode_event buf
               = Inr (time div kMicrosPerSecond * kMicrosPerSecond, evid, logline)
           \<and> unat (time div kMicrosPerSecond * kMicrosPerSecond)
               = unat time div 1000000 * 1000000"
proof -
  from read_logline_append_logline [OF assms(1)]
  obtain pbuf where pbuf: "append_logline logline = Inr pbuf" "read_logline pbuf = Inr logline"
    by auto
  let ?buf = "appendVarUInt (time div kMicrosPerSecond)
              @ appendVarUInt (of_nat (length evid)) @ evid @ pbuf"
  have enc: "event_record time evid logline = Inr ?buf"
    using pbuf(1) by (simp add: event_record_def)
  from assms(2) have len: "unat (of_nat (length evid) :: u64) = length evid"
    by (simp add: unat_of_nat)
  have hdr: "read_header ?buf
             = Inr (time div kMicrosPerSecond * kMicrosPerSecond, evid, pbuf)"
    by (simp add: read_header_def readVarUInt_appendVarUInt len reader_read_append)
  have dec: "decode_event ?buf
             = Inr (time div kMicrosPerSecond * kMicrosPerSecond, evid, logline)"
    by (simp add: decode_event_def hdr pbuf(2))
  have "unat time div 1000000 * 1000000 \<le> unat time" by simp
  also have "unat time < 2 ^ 64" using unsigned_less [of time] by simp
  finally have "unat time div 1000000 * 1000000 < 2 ^ 64" .
  then have "unat (time div kMicrosPerSecond * kMicrosPerSecond)
             = unat time div 1000000 * 1000000"
    by (simp add: kMicrosPerSecond_def unat_word_ariths unat_div)
  with enc dec show ?thesis by simp
qed

theorem event_record_roundtrip_witness:
  "''qstr~en'' \<in> dom pixel_param_ids \<and> ''x'' \<in> dom pixel_param_ids
   \<and> length ''hello'' < 2 ^ 64 \<and> length ''1'' < 2 ^ 64 \<and> length ''e1'' < 2 ^ 64
   \<and> (\<exists>buf. event_record 1000000000 ''e1'' [(''qstr~en'', ''hello''), (''x'', ''1'')] = Inr buf
         \<and> decode_event buf = Inr (1000000000, ''e1'', [(''qstr~en'', ''hello''), (''x'', ''1'')]))"
proof -
  have reg: "''qstr~en'' \<in> dom pixel_param_ids" "''x'' \<in> dom pixel_param_ids"
    by (simp_all add: pixel_param_ids_def register_all_def registrations_def
          addPixelParamID_def)
  then have h1: "\<forall>p \<in> set [(''qstr~en'', ''hello''), (''x'', ''1'')].
                   fst p \<in> dom pixel_param_ids \<and> length (snd p) < 2 ^ 64"
    by simp
  have h2: "length ''e1'' < 2 ^ 64" by simp
  from event_record_roundtrip [OF h1 h2, of 1000000000] reg
  show ?thesis by (simp add: kMicrosPerSecond_def)
qed

subsection \<open>What the scan and the flush of one session leave alone\<close>

lemma flushSession_scan_Inr:
  "flushSession_scan uid cur session this = Inr (cur', session', this') \<Longrightarrow>
     cur' = dropWhile (\<lambda>kv. beginsWith (fst kv) uid) cur
     \<and> sessions_flush_times this' = sessions_flush_times this
     \<and> txn this' = txn this \<and> rnd this' = rnd this
     \<and> stat_joined_sessions this' = stat_joined_sessions this
     \<and> stat_loglines_total this' = stat_loglines_total this"
proof (induction uid cur session this rule: flushSession_scan.induct)
  case (1 uid session this)
  then show ?case by simp
next
  case (2 uid key_str "value" rest session this)
  show ?case
  proof (cases "beginsWith key_str uid")
    case False
    with "2.prems" show ?thesis by auto
  next
    case bw: True
    show ?thesis
    proof (cases "endsWith key_str ''~cust''")
      case True
      with bw "2.prems" "2.IH"(1) show ?thesis by simp
    next
      case nc: False
      show ?thesis
      proof (cases "length key_str < length uid + 1")
        case True
        with bw nc "2.prems" show ?thesis by simp
      next
        case ln: False
        show ?thesis
        proof (cases "read_header value")
          case (Inl e)
          with bw nc ln "2.prems" show ?thesis by simp
        next
          case (Inr hdr)
          obtain time evid reader where hdr: "hdr = (time, evid, reader)"
            by (cases hdr)
          show ?thesis
          proof (cases "read_logline reader")
            case (Inl e)
            with bw nc ln Inr hdr "2.prems" "2.IH"(2) show ?thesis by auto
          next
            case lg: (Inr logline)
            with bw nc ln Inr hdr "2.prems" "2.IH"(3) show ?thesis by auto
          qed
        qed
      qed
    qed
  qed
qed

lemma onSession_frame:
  "sessions_flush_times (state_of (onSession env session this)) = sessions_flush_times this
   \<and> stat_joined_sessions (state_of (onSession env session this)) = stat_joined_sessions this
   \<and> stat_loglines_invalid (state_of (onSession env session this)) = stat_loglines_invalid this
   \<and> errors_logged (state_of (onSession env session this)) = errors_logged this"
  by (simp add: onSession_def state_of_def split: sum.splits option.splits)

lemma flushSession_frame:
  assumes "flushSession env uid stream_time this = Inr this'"
  shows "sessions_flush_times this' = sessions_flush_times this"
proof -
  let ?cur = "dropWhile (\<lambda>kv. fst kv < uid) (txn this)"
  let ?s0 = "\<lparr>session_uid = uid, session_customer_key = [], session_events = []\<rparr>"
  from assms obtain cur' session this1 where
    scan: "flushSession_scan uid ?cur ?s0 this = Inr (cur', session, this1)"
    by (cases "flushSession_scan uid ?cur ?s0 this")
       (auto simp: flushSession_def Let_def split: prod.splits)
  from flushSession_scan_Inr [OF scan]
  have ft: "sessions_flush_times this1 = sessions_flush_times this" by simp
  let ?this2 = "this1\<lparr>txn := takeWhile (\<lambda>kv. fst kv < uid) (txn this) @ cur'\<rparr>"
  show ?thesis
  proof (cases "length (session_customer_key session) = 0")
    case True
    with assms scan ft show ?thesis
      by (auto simp: flushSession_def Let_def)
  next
    case False
    from onSession_frame [of env session ?this2] ft
    have "sessions_flush_times (state_of (onSession env session ?this2))
          = sessions_flush_times this" by simp
    with assms scan False show ?thesis
      by (auto simp: flushSession_def Let_def state_of_def split: sum.splits prod.splits)
  qed
qed

subsection \<open>The flush boundary\<close>

lemma flush_iter_Inr:
  "flush_iter env t kept todo this = Inr this' \<Longrightarrow>
     sessions_flush_times this' = kept @ filter (\<lambda>e. \<not> snd e < t) todo
     \<and> fold (\<lambda>uid r. case r of Inl x \<Rightarrow> Inl x | Inr s \<Rightarrow> flushSession env uid t s)
          (map fst (filter (\<lambda>e. snd e < t) todo)) (Inr this)
        = Inr (this'\<lparr>sessions_flush_times := sessions_flush_times this\<rparr>)"
proof (induction todo arbitrary: kept this)
  case Nil
  then show ?case by auto
next
  case (Cons e todo)
  obtain uid ftime where e: "e = (uid, ftime)" by (cases e)
  show ?case
  proof (cases "ftime < t")
    case True
    with Cons.prems e obtain s1 where s1: "flushSession env uid t this = Inr s1"
      and rest: "flush_iter env t kept todo s1 = Inr this'"
      by (auto split: sum.splits)
    from flushSession_frame [OF s1] Cons.IH [OF rest] True e s1
    show ?thesis by simp
  next
    case False
    with Cons.prems e have "flush_iter env t (kept @ [(uid, ftime)]) todo this = Inr this'"
      by simp
    from Cons.IH [OF this] False e show ?thesis by simp
  qed
qed

text \<open>
  C7. When \<open>flush\<close> returns, the deadlines left are exactly the entries that were not
  due, so every remaining deadline is at least the stream time and (the keys of the map
  being distinct) no due user has an entry; and the rest of the state is what calling
  \<open>flushSession\<close> for each due user, in the order of the iteration, produces.
\<close>

theorem flush_boundary:
  assumes "flush env stream_time this = Inr this'"
  shows "sessions_flush_times this'
           = filter (\<lambda>e. \<not> snd e < stream_time) (sessions_flush_times this)
         \<and> (\<forall>e \<in> set (sessions_flush_times this'). stream_time \<le> snd e)
         \<and> (distinct (map fst (sessions_flush_times this)) \<longrightarrow>
              (\<forall>e \<in> set (sessions_flush_times this).
                 snd e < stream_time \<longrightarrow> map_of (sessions_flush_times this') (fst e) = None))
         \<and> fold (\<lambda>uid r. case r of Inl x \<Rightarrow> Inl x
                             | Inr s \<Rightarrow> flushSession env uid stream_time s)
              (map fst (filter (\<lambda>e. snd e < stream_time) (sessions_flush_times this)))
              (Inr this)
            = Inr (this'\<lparr>sessions_flush_times := sessions_flush_times this\<rparr>)"
proof -
  from assms have it: "flush_iter env stream_time [] (sessions_flush_times this) this = Inr this'"
    by (simp add: flush_def)
  from flush_iter_Inr [OF it]
  have eq: "sessions_flush_times this'
            = filter (\<lambda>e. \<not> snd e < stream_time) (sessions_flush_times this)"
    and run: "fold (\<lambda>uid r. case r of Inl x \<Rightarrow> Inl x
                             | Inr s \<Rightarrow> flushSession env uid stream_time s)
              (map fst (filter (\<lambda>e. snd e < stream_time) (sessions_flush_times this)))
              (Inr this)
            = Inr (this'\<lparr>sessions_flush_times := sessions_flush_times this\<rparr>)"
    by simp_all
  have ge: "\<forall>e \<in> set (sessions_flush_times this'). stream_time \<le> snd e"
    by (auto simp: eq)
  have gone: "map_of (sessions_flush_times this') (fst e) = None"
    if d: "distinct (map fst (sessions_flush_times this))"
      and e: "e \<in> set (sessions_flush_times this)" "snd e < stream_time" for e
  proof (rule ccontr)
    assume "map_of (sessions_flush_times this') (fst e) \<noteq> None"
    then obtain v where "map_of (sessions_flush_times this') (fst e) = Some v" by auto
    then have "(fst e, v) \<in> set (sessions_flush_times this')" by (rule map_of_SomeD)
    then have in_old: "(fst e, v) \<in> set (sessions_flush_times this)" and nd: "\<not> v < stream_time"
      by (auto simp: eq)
    from d in_old e(1) have "v = snd e"
      by (metis eq_key_imp_eq_value prod.collapse)
    with nd e(2) show False by simp
  qed
  from eq ge gone run show ?thesis by blast
qed

theorem flush_boundary_witness:
  "flush example_env 2800000001 example_two_users
     = Inr (example_two_users
              \<lparr>txn := [(''__sessionq-00000000000000000000000000000002'', ''CUST1/u1/e1;''),
                       (''u2~cust'', ''CUST2''),
                       (''u2~q~0000000000000001'',
                        [CHR 0xDC, CHR 0x0B, CHR 0x02, CHR ''e'', CHR ''2''])],
               sessions_flush_times := [(''u2'', 3300000000)],
               stat_joined_sessions := 1, rnd := 3\<rparr>)
   \<and> distinct (map fst (sessions_flush_times example_two_users))
   \<and> filter (\<lambda>e. \<not> snd e < 2800000001) (sessions_flush_times example_two_users)
       = [(''u2'', 3300000000)]
   \<and> map_of [(''u2'', 3300000000 :: u64)] ''u1'' = None"
proof -
  have run: "flush example_env 2800000001 example_two_users
     = Inr (example_two_users
              \<lparr>txn := [(''__sessionq-00000000000000000000000000000002'', ''CUST1/u1/e1;''),
                       (''u2~cust'', ''CUST2''),
                       (''u2~q~0000000000000001'',
                        [CHR 0xDC, CHR 0x0B, CHR 0x02, CHR ''e'', CHR ''2''])],
               sessions_flush_times := [(''u2'', 3300000000)],
               stat_joined_sessions := 1, rnd := 3\<rparr>)"
    by (simp add: flush_defs example_two_users_def)
  from flush_boundary [OF run] run show ?thesis
    by (simp add: example_two_users_def)
qed

subsection \<open>Keys with a common prefix are contiguous in the store\<close>

lemma beginsWith_Nil [simp]: "beginsWith s []"
  by (simp add: beginsWith_def)

lemma beginsWith_Nil_Cons [simp]: "\<not> beginsWith [] (p # ps)"
  by (simp add: beginsWith_def)

lemma beginsWith_Cons_Cons [simp]:
  "beginsWith (x # xs) (p # ps) \<longleftrightarrow> x = p \<and> beginsWith xs ps"
  by (auto simp: beginsWith_def)

lemma beginsWith_append: "beginsWith k (u @ w) \<Longrightarrow> beginsWith k u"
proof (induction u arbitrary: k)
  case Nil
  show ?case by simp
next
  case (Cons a u)
  then show ?case by (cases k) auto
qed

lemma beginsWith_trans: "beginsWith k v \<Longrightarrow> beginsWith v u \<Longrightarrow> beginsWith k u"
proof (induction u arbitrary: k v)
  case Nil
  show ?case by simp
next
  case (Cons a u)
  from Cons.prems(2) obtain v' where v: "v = a # v'" "beginsWith v' u"
    by (cases v) simp_all
  from Cons.prems(1) v(1) obtain k' where k: "k = a # k'" "beginsWith k' v'"
    by (cases k) simp_all
  from Cons.IH [OF k(2) v(2)] k(1) show ?case by simp
qed

lemma beginsWith_set: "beginsWith k u \<Longrightarrow> set u \<subseteq> set k"
proof (induction u arbitrary: k)
  case Nil
  show ?case by simp
next
  case (Cons a u)
  then show ?case by (cases k) auto
qed

lemma beginsWith_ge: "beginsWith k u \<Longrightarrow> u \<le> k"
proof (induction u arbitrary: k)
  case Nil
  show ?case by simp
next
  case (Cons a u)
  then show ?case by (cases k) auto
qed

lemma beginsWith_convex:
  "u \<le> h \<Longrightarrow> h \<le> k \<Longrightarrow> beginsWith k u \<Longrightarrow> beginsWith h u"
proof (induction u arbitrary: h k)
  case Nil
  show ?case by simp
next
  case (Cons a u)
  from Cons.prems(3) obtain k' where k: "k = a # k'" "beginsWith k' u"
    by (cases k) auto
  from Cons.prems(1) obtain b h' where h: "h = b # h'"
    by (cases h) auto
  from Cons.prems(1,2) h k have "a = b" by auto
  with Cons.prems(1,2) h k have "u \<le> h'" "h' \<le> k'" by auto
  from Cons.IH [OF this k(2)] h \<open>a = b\<close> show ?case by simp
qed

lemma sorted_dropWhile_less_ge:
  "sorted (map fst store) \<Longrightarrow>
     \<forall>kv \<in> set (dropWhile (\<lambda>kv. fst kv < u) store). u \<le> fst kv"
proof (induction store)
  case Nil
  show ?case by simp
next
  case (Cons x store)
  show ?case
  proof (cases "fst x < u")
    case True
    with Cons show ?thesis by simp
  next
    case False
    then have ux: "u \<le> fst x" by simp
    have "u \<le> fst kv" if "kv \<in> set store" for kv
    proof -
      from Cons.prems that have "fst x \<le> fst kv" by simp
      with ux show ?thesis by (rule order_trans)
    qed
    with False ux show ?thesis by simp
  qed
qed

lemma sorted_dropWhile_beginsWith:
  "sorted (map fst cur) \<Longrightarrow> \<forall>kv \<in> set cur. u \<le> fst kv \<Longrightarrow>
     \<forall>kv \<in> set (dropWhile (\<lambda>kv. beginsWith (fst kv) u) cur). \<not> beginsWith (fst kv) u"
proof (induction cur)
  case Nil
  show ?case by simp
next
  case (Cons x cur)
  show ?case
  proof (cases "beginsWith (fst x) u")
    case True
    from Cons.prems have "sorted (map fst cur)" "\<forall>kv \<in> set cur. u \<le> fst kv"
      by simp_all
    then have "\<forall>kv \<in> set (dropWhile (\<lambda>kv. beginsWith (fst kv) u) cur).
                 \<not> beginsWith (fst kv) u"
      by (rule Cons.IH)
    moreover from True
    have "dropWhile (\<lambda>kv. beginsWith (fst kv) u) (x # cur)
          = dropWhile (\<lambda>kv. beginsWith (fst kv) u) cur" by simp
    ultimately show ?thesis by (simp only:)
  next
    case False
    have "\<not> beginsWith (fst kv) u" if "kv \<in> set cur" for kv
    proof
      assume bw: "beginsWith (fst kv) u"
      from Cons.prems(1) that have xk: "fst x \<le> fst kv" by simp
      from Cons.prems(2) have ux: "u \<le> fst x" by simp
      from ux xk bw have "beginsWith (fst x) u" by (rule beginsWith_convex)
      with False show False by simp
    qed
    moreover from False
    have "dropWhile (\<lambda>kv. beginsWith (fst kv) u) (x # cur) = x # cur" by simp
    ultimately show ?thesis using False by (simp del: dropWhile.simps)
  qed
qed

lemma sorted_map_fst_dropWhile:
  "sorted (map fst store) \<Longrightarrow> sorted (map fst (dropWhile P store))"
proof (induction store)
  case Nil
  show ?case by simp
next
  case (Cons x store)
  then show ?case by (cases "P x") simp_all
qed

lemma sorted_scan_drains:
  assumes "sorted (map fst store)"
    and "kv \<in> set (takeWhile (\<lambda>kv. fst kv < u) store
                    @ dropWhile (\<lambda>kv. beginsWith (fst kv) u)
                        (dropWhile (\<lambda>kv. fst kv < u) store))"
  shows "\<not> beginsWith (fst kv) u"
proof -
  from assms(2) consider
      (before) "kv \<in> set (takeWhile (\<lambda>kv. fst kv < u) store)"
    | (after) "kv \<in> set (dropWhile (\<lambda>kv. beginsWith (fst kv) u)
                            (dropWhile (\<lambda>kv. fst kv < u) store))"
    by (simp only: set_append Un_iff) blast
  then show ?thesis
  proof cases
    case before
    then have lt: "fst kv < u" by (rule set_takeWhileD [THEN conjunct2])
    show ?thesis
    proof
      assume "beginsWith (fst kv) u"
      then have "u \<le> fst kv" by (rule beginsWith_ge)
      with lt show False by simp
    qed
  next
    case after
    have "sorted (map fst (dropWhile (\<lambda>kv. fst kv < u) store))"
      using assms(1) by (rule sorted_map_fst_dropWhile)
    then have "\<forall>kv \<in> set (dropWhile (\<lambda>kv. beginsWith (fst kv) u)
                              (dropWhile (\<lambda>kv. fst kv < u) store)).
                 \<not> beginsWith (fst kv) u"
      using sorted_dropWhile_less_ge [OF assms(1)]
      by (rule sorted_dropWhile_beginsWith)
    with after show ?thesis by (rule bspec [rotated])
  qed
qed

lemma mdb_put_set: "set (mdb_put k v m) \<subseteq> insert (k, v) (set m)"
proof (induction m)
  case Nil
  show ?case by simp
next
  case (Cons x m)
  obtain k' v' where x: "x = (k', v')" by (cases x)
  from Cons.IH show ?case unfolding x by (simp split: if_splits) blast
qed

lemma mdb_put_keys:
  assumes "a \<in> fst ` set (mdb_put k v m)"
  shows "a = k \<or> a \<in> fst ` set m"
proof -
  from assms obtain b where "(a, b) \<in> set (mdb_put k v m)" by auto
  with mdb_put_set [of k v m] have "(a, b) = (k, v) \<or> (a, b) \<in> set m" by blast
  then show ?thesis
  proof
    assume "(a, b) = (k, v)"
    then show ?thesis by simp
  next
    assume "(a, b) \<in> set m"
    then have "fst (a, b) \<in> fst ` set m" by (rule imageI)
    then show ?thesis by simp
  qed
qed

lemma onSession_txn:
  assumes "a \<in> fst ` set (txn (state_of (onSession env session this)))"
  shows "a = ''__sessionq-'' @ rnd_hex128 env (rnd this) \<or> a \<in> fst ` set (txn this)"
proof (cases "onSession env session this")
  case (Inl x)
  then have "txn (state_of (onSession env session this)) = txn this"
    by (auto simp: onSession_def state_of_def split: sum.splits option.splits if_splits)
  with assms show ?thesis by simp
next
  case (Inr this')
  then have "txn this' = txn this
             \<or> (\<exists>v. txn this' = mdb_put (''__sessionq-'' @ rnd_hex128 env (rnd this)) v
                                    (txn this))"
    by (auto simp: onSession_def split: sum.splits option.splits if_splits)
  then show ?thesis
  proof
    assume "txn this' = txn this"
    with assms Inr show ?thesis by (simp add: state_of_def)
  next
    assume "\<exists>v. txn this' = mdb_put (''__sessionq-'' @ rnd_hex128 env (rnd this)) v (txn this)"
    then obtain v where
      "txn this' = mdb_put (''__sessionq-'' @ rnd_hex128 env (rnd this)) v (txn this)" ..
    with assms Inr
    have "a \<in> fst ` set (mdb_put (''__sessionq-'' @ rnd_hex128 env (rnd this)) v (txn this))"
      by (simp add: state_of_def)
    then show ?thesis by (rule mdb_put_keys)
  qed
qed

text \<open>
  What \<open>flushSession\<close> leaves in the store when it returns: the records before the
  cursor's start and those after the run of keys beginning with the uid, and at most the
  envelope record in addition.
\<close>

lemma flushSession_txn:
  assumes "flushSession env uid stream_time this = Inr this'"
    and "a \<in> fst ` set (txn this')"
  shows "a = ''__sessionq-'' @ rnd_hex128 env (rnd this)
         \<or> a \<in> fst ` set (takeWhile (\<lambda>kv. fst kv < uid) (txn this)
                           @ dropWhile (\<lambda>kv. beginsWith (fst kv) uid)
                               (dropWhile (\<lambda>kv. fst kv < uid) (txn this)))"
proof -
  let ?cur = "dropWhile (\<lambda>kv. fst kv < uid) (txn this)"
  let ?s0 = "\<lparr>session_uid = uid, session_customer_key = [], session_events = []\<rparr>"
  from assms(1) obtain cur' session this1 where
    scan: "flushSession_scan uid ?cur ?s0 this = Inr (cur', session, this1)"
    by (cases "flushSession_scan uid ?cur ?s0 this")
       (auto simp: flushSession_def Let_def split: prod.splits)
  from flushSession_scan_Inr [OF scan]
  have cur': "cur' = dropWhile (\<lambda>kv. beginsWith (fst kv) uid) ?cur"
    and rnd: "rnd this1 = rnd this" by simp_all
  let ?this2 = "this1\<lparr>txn := takeWhile (\<lambda>kv. fst kv < uid) (txn this) @ cur'\<rparr>"
  show ?thesis
  proof (cases "length (session_customer_key session) = 0")
    case True
    with assms(1) scan have "txn this' = takeWhile (\<lambda>kv. fst kv < uid) (txn this) @ cur'"
      by (auto simp: flushSession_def Let_def)
    with assms(2) cur' show ?thesis by simp
  next
    case False
    with assms(1) scan have "txn this' = txn (state_of (onSession env session ?this2))"
      by (auto simp: flushSession_def Let_def state_of_def split: sum.splits prod.splits)
    with assms(2) have "a \<in> fst ` set (txn (state_of (onSession env session ?this2)))"
      by simp
    from onSession_txn [OF this] cur' rnd show ?thesis by simp
  qed
qed

subsection \<open>Scan and drain\<close>

text \<open>
  C8. When \<open>flushSession\<close> returns, over a store in key order and with a random suffix
  free of \<open>~\<close> (it is hexadecimal), no key beginning with \<open>uid~\<close> is left in the
  transaction: neither the customer-key record nor an event record.
\<close>

theorem flushSession_drains:
  assumes "flushSession env uid stream_time this = Inr this'"
    and "sorted (map fst (txn this))"
    and "CHR ''~'' \<notin> set (rnd_hex128 env (rnd this))"
  shows "\<forall>kv \<in> set (txn this'). \<not> beginsWith (fst kv) (uid @ ''~'')"
proof
  fix kv
  assume kv: "kv \<in> set (txn this')"
  show "\<not> beginsWith (fst kv) (uid @ ''~'')"
  proof
    assume bw: "beginsWith (fst kv) (uid @ ''~'')"
    then have "set (uid @ ''~'') \<subseteq> set (fst kv)" by (rule beginsWith_set)
    then have "CHR ''~'' \<in> set (fst kv)" by auto
    with assms(3) have "fst kv \<noteq> ''__sessionq-'' @ rnd_hex128 env (rnd this)" by auto
    moreover from kv have "fst kv \<in> fst ` set (txn this')" by (rule imageI)
    ultimately
    have "fst kv \<in> fst ` set (takeWhile (\<lambda>kv. fst kv < uid) (txn this)
                           @ dropWhile (\<lambda>kv. beginsWith (fst kv) uid)
                               (dropWhile (\<lambda>kv. fst kv < uid) (txn this)))"
      using flushSession_txn [OF assms(1), of "fst kv"] by blast
    with assms(2) have "\<not> beginsWith (fst kv) uid"
    proof -
      assume srt: "sorted (map fst (txn this))"
      assume "fst kv \<in> fst ` set (takeWhile (\<lambda>kv. fst kv < uid) (txn this)
                           @ dropWhile (\<lambda>kv. beginsWith (fst kv) uid)
                               (dropWhile (\<lambda>kv. fst kv < uid) (txn this)))"
      then obtain kv' where kv': "fst kv' = fst kv"
        "kv' \<in> set (takeWhile (\<lambda>kv. fst kv < uid) (txn this)
                     @ dropWhile (\<lambda>kv. beginsWith (fst kv) uid)
                         (dropWhile (\<lambda>kv. fst kv < uid) (txn this)))"
        by (auto simp only: image_iff)
      from sorted_scan_drains [OF srt kv'(2)] kv'(1) show ?thesis by simp
    qed
    with beginsWith_append [OF bw] show False by simp
  qed
qed

theorem flushSession_drains_witness:
  "flushSession example_env ''u1'' 2800000001 example_two_users
     = Inr (example_two_users
              \<lparr>txn := [(''__sessionq-00000000000000000000000000000002'', ''CUST1/u1/e1;''),
                       (''u2~cust'', ''CUST2''),
                       (''u2~q~0000000000000001'',
                        [CHR 0xDC, CHR 0x0B, CHR 0x02, CHR ''e'', CHR ''2''])],
               stat_joined_sessions := 1, rnd := 3\<rparr>)
   \<and> sorted (map fst (txn example_two_users))
   \<and> CHR ''~'' \<notin> set (rnd_hex128 example_env (rnd example_two_users))
   \<and> \<not> beginsWith ''__sessionq-00000000000000000000000000000002'' (''u1'' @ ''~'')
   \<and> \<not> beginsWith ''u2~cust'' (''u1'' @ ''~'')
   \<and> \<not> beginsWith ''u2~q~0000000000000001'' (''u1'' @ ''~'')"
proof -
  have run: "flushSession example_env ''u1'' 2800000001 example_two_users
     = Inr (example_two_users
              \<lparr>txn := [(''__sessionq-00000000000000000000000000000002'', ''CUST1/u1/e1;''),
                       (''u2~cust'', ''CUST2''),
                       (''u2~q~0000000000000001'',
                        [CHR 0xDC, CHR 0x0B, CHR 0x02, CHR ''e'', CHR ''2''])],
               stat_joined_sessions := 1, rnd := 3\<rparr>)"
    by (simp add: flush_defs example_two_users_def)
  have srt: "sorted (map fst (txn example_two_users))"
    by (simp add: example_two_users_def)
  have hex: "CHR ''~'' \<notin> set (rnd_hex128 example_env (rnd example_two_users))"
    by (simp add: example_two_users_def example_env_def)
  from flushSession_drains [OF run srt hex] run srt hex show ?thesis
    by (simp add: example_two_users_def)
qed

subsection \<open>Users whose uid is a prefix of another uid\<close>

lemma flushSession_scan_step:
  assumes "flushSession_scan uid ((key, value) # rest) session this = Inr res"
    and "beginsWith key uid"
  shows "\<exists>session1 this1.
           flushSession_scan uid rest session1 this1 = Inr res
           \<and> set (session_events session) \<subseteq> set (session_events session1)
           \<and> (\<not> endsWith key ''~cust'' \<longrightarrow>
                (\<forall>time evid logline. decode_event value = Inr (time, evid, logline) \<longrightarrow>
                   (time, substr (drop (length uid + 1) key) 0 1, evid, logline)
                     \<in> set (session_events session1)))"
proof (cases "endsWith key ''~cust''")
  case True
  with assms have
    "flushSession_scan uid rest (session\<lparr>session_customer_key := value\<rparr>) this = Inr res"
    by simp
  with True show ?thesis by (intro exI [of _ "session\<lparr>session_customer_key := value\<rparr>"] exI conjI) simp_all
next
  case nc: False
  with assms have ln: "\<not> length key < length uid + 1"
    by (auto split: if_splits)
  show ?thesis
  proof (cases "read_header value")
    case (Inl e)
    with assms nc ln show ?thesis by simp
  next
    case (Inr hdr)
    obtain time evid reader where hdr: "hdr = (time, evid, reader)" by (cases hdr)
    show ?thesis
    proof (cases "read_logline reader")
      case (Inl e)
      let ?this1 = "this\<lparr>errors_logged := errors_logged this @ [''invalid logline''],
                          stat_loglines_invalid := stat_loglines_invalid this + 1\<rparr>"
      from assms nc ln Inr hdr Inl have "flushSession_scan uid rest session ?this1 = Inr res"
        by simp
      moreover from Inr hdr Inl have "\<forall>t e l. decode_event value \<noteq> Inr (t, e, l)"
        by (simp add: decode_event_def)
      ultimately show ?thesis
        by (intro exI [of _ session] exI [of _ ?this1] conjI) simp_all
    next
      case lg: (Inr logline)
      let ?s1 = "session_insertLogline time (substr (drop (length uid + 1) key) 0 1)
                   evid logline session"
      from assms nc ln Inr hdr lg have "flushSession_scan uid rest ?s1 this = Inr res"
        by simp
      moreover from Inr hdr lg have "decode_event value = Inr (time, evid, logline)"
        by (simp add: decode_event_def)
      moreover have "set (session_events session) \<subseteq> set (session_events ?s1)"
        "(time, substr (drop (length uid + 1) key) 0 1, evid, logline)
           \<in> set (session_events ?s1)"
        by (auto simp: session_insertLogline_def)
      ultimately show ?thesis
        by (intro exI [of _ ?s1] exI [of _ this] conjI) simp_all
    qed
  qed
qed

lemma flushSession_scan_events_mono:
  "flushSession_scan uid cur session this = Inr (cur', session', this') \<Longrightarrow>
     set (session_events session) \<subseteq> set (session_events session')"
proof (induction cur arbitrary: session this)
  case Nil
  then show ?case by simp
next
  case (Cons x cur)
  obtain key "value" where x: "x = (key, value)" by (cases x)
  show ?case
  proof (cases "beginsWith key uid")
    case False
    with Cons.prems x show ?thesis by simp
  next
    case True
    from flushSession_scan_step [OF Cons.prems [unfolded x] True]
    obtain session1 this1 where
      "flushSession_scan uid cur session1 this1 = Inr (cur', session', this')"
      "set (session_events session) \<subseteq> set (session_events session1)"
      by blast
    with Cons.IH [of session1 this1] show ?thesis by blast
  qed
qed

lemma flushSession_scan_reads:
  assumes "flushSession_scan uid cur session this = Inr (cur', session', this')"
    and "(key, value) \<in> set (takeWhile (\<lambda>kv. beginsWith (fst kv) uid) cur)"
    and "\<not> endsWith key ''~cust''"
    and "decode_event value = Inr (time, evid, logline)"
  shows "(time, substr (drop (length uid + 1) key) 0 1, evid, logline)
           \<in> set (session_events session')"
  using assms(1,2)
proof (induction cur arbitrary: session this)
  case Nil
  then show ?case by simp
next
  case (Cons x cur)
  obtain k v where x: "x = (k, v)" by (cases x)
  from Cons.prems(2) x have bw: "beginsWith k uid"
    by (auto split: if_splits)
  from flushSession_scan_step [OF Cons.prems(1) [unfolded x] bw]
  obtain session1 this1 where
    rest: "flushSession_scan uid cur session1 this1 = Inr (cur', session', this')"
    and here: "\<not> endsWith k ''~cust'' \<longrightarrow>
                (\<forall>time evid logline. decode_event v = Inr (time, evid, logline) \<longrightarrow>
                   (time, substr (drop (length uid + 1) k) 0 1, evid, logline)
                     \<in> set (session_events session1))"
    by blast
  from Cons.prems(2) x bw
  consider "(key, value) = (k, v)"
    | "(key, value) \<in> set (takeWhile (\<lambda>kv. beginsWith (fst kv) uid) cur)"
    by auto
  then show ?case
  proof cases
    case 1
    with here assms(3,4)
    have "(time, substr (drop (length uid + 1) key) 0 1, evid, logline)
            \<in> set (session_events session1)" by simp
    with flushSession_scan_events_mono [OF rest] show ?thesis by blast
  next
    case 2
    from Cons.IH [OF rest 2] show ?thesis .
  qed
qed

lemma sorted_run_member:
  assumes "sorted (map fst store)" and "kv \<in> set store" and "beginsWith (fst kv) u"
  shows "kv \<in> set (takeWhile (\<lambda>kv. beginsWith (fst kv) u)
                     (dropWhile (\<lambda>kv. fst kv < u) store))"
proof (rule ccontr)
  let ?A = "takeWhile (\<lambda>kv. fst kv < u) store"
  let ?cur = "dropWhile (\<lambda>kv. fst kv < u) store"
  let ?B = "takeWhile (\<lambda>kv. beginsWith (fst kv) u) ?cur"
  let ?C = "dropWhile (\<lambda>kv. beginsWith (fst kv) u) ?cur"
  assume notB: "kv \<notin> set ?B"
  have "set store = set ?A \<union> set ?cur"
    by (metis set_append takeWhile_dropWhile_id)
  moreover have "set ?cur = set ?B \<union> set ?C"
    by (metis set_append takeWhile_dropWhile_id)
  ultimately have "kv \<in> set ?A \<or> kv \<in> set ?B \<or> kv \<in> set ?C"
    using assms(2) by simp
  with notB have "kv \<in> set (?A @ ?C)" by simp
  from sorted_scan_drains [OF assms(1) this] assms(3) show False by simp
qed

text \<open>
  C10. The scan of \<open>flushSession\<close> tests keys against the bare uid, without the
  separator. So for users \<open>uid\<close> and \<open>v\<close> with \<open>uid\<close> a prefix of \<open>v\<close>, when
  \<open>flushSession\<close> for \<open>uid\<close> returns (over a store in key order, the random suffix
  being free of \<open>~\<close>), every record of \<open>v\<close>, customer-key record or event record, is
  gone from the store, and every event record of \<open>v\<close> that decodes has been put into the
  session built for \<open>uid\<close>.
\<close>

theorem flushSession_consumes_prefix_sharing_user:
  assumes "flushSession env uid stream_time this = Inr this'"
    and "sorted (map fst (txn this))"
    and "CHR ''~'' \<notin> set (rnd_hex128 env (rnd this))"
    and "beginsWith v uid"
    and "(key, value) \<in> set (txn this)"
    and "beginsWith key (v @ ''~'')"
  shows "key \<notin> fst ` set (txn this')
         \<and> (\<exists>cursor' session this1.
               flushSession_scan uid (dropWhile (\<lambda>kv. fst kv < uid) (txn this))
                 \<lparr>session_uid = uid, session_customer_key = [], session_events = []\<rparr> this
               = Inr (cursor', session, this1)
               \<and> (\<not> endsWith key ''~cust'' \<longrightarrow>
                    (\<forall>time evid logline.
                       decode_event value = Inr (time, evid, logline) \<longrightarrow>
                       (time, substr (drop (length uid + 1) key) 0 1, evid, logline)
                         \<in> set (session_events session))))"
proof -
  let ?cur = "dropWhile (\<lambda>kv. fst kv < uid) (txn this)"
  let ?s0 = "\<lparr>session_uid = uid, session_customer_key = [], session_events = []\<rparr>"
  from assms(6) have "beginsWith key v" by (rule beginsWith_append)
  then have bw: "beginsWith key uid" using assms(4) by (rule beginsWith_trans)
  from assms(6) have "set (v @ ''~'') \<subseteq> set key" by (rule beginsWith_set)
  then have "CHR ''~'' \<in> set key" by auto
  with assms(3) have not_env: "key \<noteq> ''__sessionq-'' @ rnd_hex128 env (rnd this)" by auto
  have gone: "key \<notin> fst ` set (txn this')"
  proof
    assume "key \<in> fst ` set (txn this')"
    from flushSession_txn [OF assms(1) this] not_env
    have "key \<in> fst ` set (takeWhile (\<lambda>kv. fst kv < uid) (txn this)
                          @ dropWhile (\<lambda>kv. beginsWith (fst kv) uid) ?cur)"
      by simp
    then obtain kv where kv: "fst kv = key"
      "kv \<in> set (takeWhile (\<lambda>kv. fst kv < uid) (txn this)
                  @ dropWhile (\<lambda>kv. beginsWith (fst kv) uid) ?cur)"
      by (auto simp only: image_iff)
    from sorted_scan_drains [OF assms(2) kv(2)] kv(1) bw show False by simp
  qed
  from assms(1) obtain cur' session this1 where
    scan: "flushSession_scan uid ?cur ?s0 this = Inr (cur', session, this1)"
    by (cases "flushSession_scan uid ?cur ?s0 this")
       (auto simp: flushSession_def Let_def split: prod.splits)
  from sorted_run_member [OF assms(2,5)] bw
  have run: "(key, value) \<in> set (takeWhile (\<lambda>kv. beginsWith (fst kv) uid) ?cur)"
    by simp
  have "(time, substr (drop (length uid + 1) key) 0 1, evid, logline)
          \<in> set (session_events session)"
    if "\<not> endsWith key ''~cust''" "decode_event value = Inr (time, evid, logline)"
    for time evid logline
    using scan run that by (rule flushSession_scan_reads)
  with gone scan show ?thesis by blast
qed

theorem flushSession_consumes_prefix_sharing_user_witness:
  "flushSession example_env ''u1'' 2800000001 example_prefix_users
     = Inr (example_prefix_users
              \<lparr>txn := [(''__sessionq-00000000000000000000000000000002'',
                        ''CUST1/u1/e9;e1;'')],
               stat_joined_sessions := 1, rnd := 3\<rparr>)
   \<and> sorted (map fst (txn example_prefix_users))
   \<and> CHR ''~'' \<notin> set (rnd_hex128 example_env (rnd example_prefix_users))
   \<and> beginsWith ''u10'' ''u1''
   \<and> (''u10~q~0000000000000001'', [CHR 0xDC, CHR 0x0B, CHR 0x02, CHR ''e'', CHR ''9''])
       \<in> set (txn example_prefix_users)
   \<and> beginsWith ''u10~q~0000000000000001'' (''u10'' @ ''~'')
   \<and> ''u10~q~0000000000000001''
       \<notin> fst ` set [(''__sessionq-00000000000000000000000000000002'', ''CUST1/u1/e9;e1;'')]"
proof -
  have run: "flushSession example_env ''u1'' 2800000001 example_prefix_users
     = Inr (example_prefix_users
              \<lparr>txn := [(''__sessionq-00000000000000000000000000000002'',
                        ''CUST1/u1/e9;e1;'')],
               stat_joined_sessions := 1, rnd := 3\<rparr>)"
    by (simp add: flush_defs example_prefix_users_def)
  have srt: "sorted (map fst (txn example_prefix_users))"
    by (simp add: example_prefix_users_def)
  have hex: "CHR ''~'' \<notin> set (rnd_hex128 example_env (rnd example_prefix_users))"
    by (simp add: example_prefix_users_def example_env_def)
  have v: "beginsWith ''u10'' ''u1''" by simp
  have mem: "(''u10~q~0000000000000001'', [CHR 0xDC, CHR 0x0B, CHR 0x02, CHR ''e'', CHR ''9''])
               \<in> set (txn example_prefix_users)"
    by (simp add: example_prefix_users_def)
  have bw: "beginsWith ''u10~q~0000000000000001'' (''u10'' @ ''~'')" by simp
  from flushSession_consumes_prefix_sharing_user [OF run srt hex v mem bw] run srt hex v mem bw
  show ?thesis by simp
qed

subsection \<open>A join target that throws\<close>

lemma scan_store_subset:
  "set (takeWhile P store @ dropWhile Q (dropWhile P store)) \<subseteq> set store"
proof -
  have "set (dropWhile Q (dropWhile P store)) \<subseteq> set (dropWhile P store)"
    by (rule set_dropWhileD [THEN subsetI])
  moreover have "set (dropWhile P store) \<subseteq> set store"
    by (rule set_dropWhileD [THEN subsetI])
  moreover have "set (takeWhile P store) \<subseteq> set store"
    by (rule set_takeWhileD [THEN conjunct1, THEN subsetI])
  ultimately show ?thesis by auto
qed

text \<open>
  C2 as stated fails: with a target that throws, \<open>flushSession\<close> for \<open>u1\<close> writes no
  envelope and logs the failure, but \<open>joined_sessions\<close> goes from 0 to 1.
\<close>

theorem flushSession_target_failure_counterexample:
  "target_joinSession failing_target_env
       \<lparr>session_uid = ''u1'', session_customer_key = ''CUST1'',
        session_events = [(1000000000, ''q'', ''e1'', [])]\<rparr>
     = Inl kRuntimeError
   \<and> flushSession failing_target_env ''u1'' 2800000001 example_two_users
     = Inr (example_two_users
              \<lparr>txn := [(''u2~cust'', ''CUST2''),
                       (''u2~q~0000000000000001'',
                        [CHR 0xDC, CHR 0x0B, CHR 0x02, CHR ''e'', CHR ''2''])],
               stat_joined_sessions := 1,
               errors_logged := [''LogJoint::onSession crashed'']\<rparr>)
   \<and> \<not> (stat_joined_sessions
            (state_of (flushSession failing_target_env ''u1'' 2800000001 example_two_users))
          = stat_joined_sessions example_two_users)"
  by (simp add: flush_defs failing_target_env_def example_two_users_def)

text \<open>
  C2, amended. For every session that the scan of \<open>flushSession\<close> reconstructs with a
  customer key, if the join target throws, then \<open>flushSession\<close> returns normally, the
  failure is logged, and no record is written: the store is the one the scan left, with no
  key that was not there before. The counter \<open>joined_sessions\<close> is incremented by one
  all the same. (A throw is an exception derived from \<open>std::exception\<close>, as the
  exceptions of this code base are.)
\<close>

theorem flushSession_target_failure:
  assumes "flushSession_scan uid (dropWhile (\<lambda>kv. fst kv < uid) (txn this))
             \<lparr>session_uid = uid, session_customer_key = [], session_events = []\<rparr> this
           = Inr (cursor', session, this1)"
    and "session_customer_key session \<noteq> []"
    and "target_joinSession env session = Inl e"
  shows "flushSession env uid stream_time this
           = Inr (this1\<lparr>txn := takeWhile (\<lambda>kv. fst kv < uid) (txn this) @ cursor',
                        errors_logged := errors_logged this1 @ [''LogJoint::onSession crashed''],
                        stat_joined_sessions := stat_joined_sessions this + 1\<rparr>)
         \<and> set (takeWhile (\<lambda>kv. fst kv < uid) (txn this) @ cursor') \<subseteq> set (txn this)"
proof -
  from flushSession_scan_Inr [OF assms(1)]
  have cur: "cursor' = dropWhile (\<lambda>kv. beginsWith (fst kv) uid)
                         (dropWhile (\<lambda>kv. fst kv < uid) (txn this))"
    and js: "stat_joined_sessions this1 = stat_joined_sessions this"
    by simp_all
  from assms js have "flushSession env uid stream_time this
           = Inr (this1\<lparr>txn := takeWhile (\<lambda>kv. fst kv < uid) (txn this) @ cursor',
                        errors_logged := errors_logged this1 @ [''LogJoint::onSession crashed''],
                        stat_joined_sessions := stat_joined_sessions this + 1\<rparr>)"
    by (simp add: flushSession_def onSession_def)
  moreover have "set (takeWhile (\<lambda>kv. fst kv < uid) (txn this) @ cursor') \<subseteq> set (txn this)"
    unfolding cur by (rule scan_store_subset)
  ultimately show ?thesis by simp
qed

theorem flushSession_target_failure_witness:
  "flushSession_scan ''u1'' (dropWhile (\<lambda>kv. fst kv < ''u1'') (txn example_two_users))
       \<lparr>session_uid = ''u1'', session_customer_key = [], session_events = []\<rparr>
       example_two_users
     = Inr ([(''u2~cust'', ''CUST2''),
             (''u2~q~0000000000000001'', [CHR 0xDC, CHR 0x0B, CHR 0x02, CHR ''e'', CHR ''2''])],
            \<lparr>session_uid = ''u1'', session_customer_key = ''CUST1'',
             session_events = [(1000000000, ''q'', ''e1'', [])]\<rparr>,
            example_two_users)
   \<and> target_joinSession failing_target_env
         \<lparr>session_uid = ''u1'', session_customer_key = ''CUST1'',
          session_events = [(1000000000, ''q'', ''e1'', [])]\<rparr>
       = Inl kRuntimeError
   \<and> flushSession failing_target_env ''u1'' 2800000001 example_two_users
       = Inr (example_two_users
                \<lparr>txn := [(''u2~cust'', ''CUST2''),
                         (''u2~q~0000000000000001'',
                          [CHR 0xDC, CHR 0x0B, CHR 0x02, CHR ''e'', CHR ''2''])],
                 errors_logged := [''LogJoint::onSession crashed''],
                 stat_joined_sessions := 1\<rparr>)"
proof -
  have scan: "flushSession_scan ''u1''
       (dropWhile (\<lambda>kv. fst kv < ''u1'') (txn example_two_users))
       \<lparr>session_uid = ''u1'', session_customer_key = [], session_events = []\<rparr>
       example_two_users
     = Inr ([(''u2~cust'', ''CUST2''),
             (''u2~q~0000000000000001'', [CHR 0xDC, CHR 0x0B, CHR 0x02, CHR ''e'', CHR ''2''])],
            \<lparr>session_uid = ''u1'', session_customer_key = ''CUST1'',
             session_events = [(1000000000, ''q'', ''e1'', [])]\<rparr>,
            example_two_users)"
    by (simp add: flush_defs example_two_users_def kMicrosPerSecond_def)
  have key: "session_customer_key
               \<lparr>session_uid = ''u1'', session_customer_key = ''CUST1'',
                session_events = [(1000000000 :: u64, ''q'', ''e1'', [])]\<rparr> \<noteq> []"
    by simp
  have fail: "target_joinSession failing_target_env
         \<lparr>session_uid = ''u1'', session_customer_key = ''CUST1'',
          session_events = [(1000000000, ''q'', ''e1'', [])]\<rparr>
       = Inl kRuntimeError"
    by (simp add: failing_target_env_def)
  from flushSession_target_failure [OF scan key fail, of 2800000001] scan fail
  show ?thesis by (simp add: example_two_users_def)
qed

subsection \<open>Records that do not decode\<close>

text \<open>
  C5. A decode failure of one event record is meant to be logged, counted in
  \<open>loglines_invalid\<close> and skipped. The source reads the timestamp and the event id
  before it enters the \<open>try\<close> block, so a record cut off there makes \<open>flushSession\<close>
  raise: nothing is logged or counted, and the sound record after it is not processed.
\<close>

theorem flushSession_truncated_header_raises:
  "flushSession example_env ''u1'' 2800000001 example_truncated
     = Inl (kBufferOverflowError,
            example_truncated
              \<lparr>txn := [(''u1~q~0000000000000000'', [CHR 0xE8]),
                       (''u1~q~0000000000000001'',
                        [CHR 0xC4, CHR 0x13, CHR 0x02, CHR ''e'', CHR ''2''])]\<rparr>)
   \<and> stat_loglines_invalid
       (state_of (flushSession example_env ''u1'' 2800000001 example_truncated))
     = stat_loglines_invalid example_truncated
   \<and> errors_logged (state_of (flushSession example_env ''u1'' 2800000001 example_truncated))
     = []"
  by (simp add: flush_defs example_truncated_def)

subsection \<open>Bootstrap\<close>

text \<open>
  C4. The bootstrap is meant to rebuild the deadlines that replaying the inserts gives,
  \<open>(2500 + 1800) * 10^6\<close> for events at 1000 s and 2500 s. It updates the map with
  \<open>emplace\<close> as the append path does, so the first record met in key order fixes the
  deadline: here \<open>(1000 + 1800) * 10^6\<close>. And where the later event has the smaller
  key, the bootstrap gives \<open>(2500 + 1800) * 10^6\<close> while the replay of the two inserts
  gives \<open>(1000 + 1800) * 10^6\<close>.
\<close>

theorem importTimeoutList_keeps_first_deadline:
  "importTimeoutList example_two_events
     = Inr (example_two_events\<lparr>sessions_flush_times := [(''u1'', 2800000000)]\<rparr>)
   \<and> (2500 + kSessionIdleTimeoutSeconds) * kMicrosPerSecond = 4300000000
   \<and> sessions_flush_times
       (state_of (insertLogline_raw descending_rnd_env ''CUST1|2500|c=u1~e2&e=q''
          (state_of (insertLogline_raw descending_rnd_env ''CUST1|1000|c=u1~e1&e=q''
             LogJoin_new))))
     = [(''u1'', 2800000000)]
   \<and> sessions_flush_times
       (state_of (importTimeoutList
          (LogJoin_new\<lparr>txn := txn
             (state_of (insertLogline_raw descending_rnd_env ''CUST1|2500|c=u1~e2&e=q''
                (state_of (insertLogline_raw descending_rnd_env ''CUST1|1000|c=u1~e1&e=q''
                   LogJoin_new))))\<rparr>)))
     = [(''u1'', 4300000000)]"
  by (simp add: model_defs descending_rnd_env_def importTimeoutList_def example_two_events_def
        beginsWith_def endsWith_def)

end
